theory Spec2Isabelle
  imports Main "HOL-Library.Sublist"
begin

section \<open>Strings\<close>

text \<open>
  Strings are lists of 8-bit characters: the model covers the strings whose code units
  are below 256. In that range the line terminators of the regular-expression engine are
  LF and CR, and its white space is TAB, LF, VT, FF, CR, SPACE and NBSP.
\<close>

definition BACKSLASH :: char where
  "BACKSLASH = CHR 0x5C"

definition LF :: char where
  "LF = CHR 0x0A"

definition CR :: char where
  "CR = CHR 0x0D"

definition isLineTerminator :: "char \<Rightarrow> bool" where
  "isLineTerminator c \<longleftrightarrow> c = LF \<or> c = CR"

definition isWhiteSpace :: "char \<Rightarrow> bool" where
  "isWhiteSpace c \<longleftrightarrow>
     c = CHR 0x09 \<or> c = LF \<or> c = CHR 0x0B \<or> c = CHR 0x0C \<or> c = CR \<or> c = CHR 0x20 \<or> c = CHR 0xA0"

text \<open>\<^verbatim>\<open>s.startsWith(p)\<close> and \<^verbatim>\<open>s.endsWith(p)\<close>.\<close>

definition startsWith :: "string \<Rightarrow> string \<Rightarrow> bool" where
  "startsWith s p \<longleftrightarrow> prefix p s"

definition endsWith :: "string \<Rightarrow> string \<Rightarrow> bool" where
  "endsWith s p \<longleftrightarrow> suffix p s"

text \<open>\<^verbatim>\<open>s.replace(/\\/g, "/")\<close>: every backslash becomes a forward slash.\<close>

definition normalizeSlashes :: "string \<Rightarrow> string" where
  "normalizeSlashes s = map (\<lambda>c. if c = BACKSLASH then CHR ''/'' else c) s"

text \<open>
  \<^verbatim>\<open>s.replace(/pat/g, rep)\<close> for a literal, non-empty \<open>pat\<close> and a replacement
  without \<^verbatim>\<open>$\<close>: the matches are taken leftmost first and do not overlap.
\<close>

function replaceAll :: "string \<Rightarrow> string \<Rightarrow> string \<Rightarrow> string" where
  "replaceAll pat rep [] = []"
| "replaceAll pat rep (c # cs) =
     (if pat \<noteq> [] \<and> prefix pat (c # cs)
      then rep @ replaceAll pat rep (drop (length pat) (c # cs))
      else c # replaceAll pat rep cs)"
  by pat_completeness auto
termination
  by (relation "measure (\<lambda>(pat, rep, s). length s)") auto

text \<open>\<^verbatim>\<open>s.replace(/x/g, rep)\<close> for a single character \<open>x\<close>.\<close>

definition replaceChar :: "char \<Rightarrow> string \<Rightarrow> string \<Rightarrow> string" where
  "replaceChar x rep s = concat (map (\<lambda>c. if c = x then rep else [c]) s)"

text \<open>\<^verbatim>\<open>s.split("\n")\<close>: never empty, the empty string gives one empty line.\<close>

fun splitLines :: "string \<Rightarrow> string list" where
  "splitLines [] = [[]]"
| "splitLines (c # cs) =
     (let rest = splitLines cs in
      if c = LF then [] # rest else (c # hd rest) # tl rest)"

text \<open>\<^verbatim>\<open>s.includes(sub)\<close>.\<close>

definition includesStr :: "string \<Rightarrow> string \<Rightarrow> bool" where
  "includesStr s sub = list_ex (\<lambda>i. prefix sub (drop i s)) [0 ..< Suc (length s)]"

text \<open>\<^verbatim>\<open>s.substr(start, len)\<close> for non-negative arguments.\<close>

definition substr :: "string \<Rightarrow> nat \<Rightarrow> nat \<Rightarrow> string" where
  "substr s start len = take len (drop start s)"

text \<open>\<^verbatim>\<open>xs.join(sep)\<close>.\<close>

fun join :: "string \<Rightarrow> string list \<Rightarrow> string" where
  "join sep [] = []"
| "join sep [x] = x"
| "join sep (x # y # ys) = x @ sep @ join sep (y # ys)"

text \<open>The decimal rendering of a non-negative integer, as a template literal prints it.\<close>

definition digitChar :: "nat \<Rightarrow> char" where
  "digitChar d = ''0123456789'' ! d"

fun showNat :: "nat \<Rightarrow> string" where
  "showNat n = (if n < 10 then [digitChar n] else showNat (n div 10) @ [digitChar (n mod 10)])"

declare showNat.simps [simp del]

section \<open>Regular expressions built by globToRegex\<close>

text \<open>
  The pattern text that \<open>globToRegex\<close> hands to \<^verbatim>\<open>new RegExp\<close> holds metacharacters
  only as the anchors, as escaped literals and inside the three constructs it generates
  (\<^verbatim>\<open>[^/]*\<close>, \<^verbatim>\<open>[^/]\<close> and \<^verbatim>\<open>.*\<close>). \<open>compileRegExp\<close> reads this fragment: a
  backslash makes the next character a literal, and any other character stands for
  itself. Theorem \<open>globToRegex_atoms\<close> below shows that every pattern text built by
  \<open>globToRegex\<close> is read as the two anchors around one atom for each element of the glob.
\<close>

datatype atom =
    AssertStart
  | AssertEnd
  | Lit char
  | NotSlash
  | NotSlashStar
  | DotStar

function compileRegExp :: "string \<Rightarrow> atom list" where
  "compileRegExp [] = []"
| "compileRegExp (c # cs) =
     (if c = BACKSLASH then
        (case cs of [] \<Rightarrow> [Lit c] | d # ds \<Rightarrow> Lit d # compileRegExp ds)
      else if prefix ''[^/]*'' (c # cs) then NotSlashStar # compileRegExp (drop 4 cs)
      else if prefix ''[^/]'' (c # cs) then NotSlash # compileRegExp (drop 3 cs)
      else if prefix ''.*'' (c # cs) then DotStar # compileRegExp (drop 1 cs)
      else if c = CHR ''^'' then AssertStart # compileRegExp cs
      else if c = CHR ''$'' then AssertEnd # compileRegExp cs
      else Lit c # compileRegExp cs)"
  by pat_completeness auto
termination
  by (relation "measure length") auto

text \<open>
  Matching from one position. \<open>atStart\<close> says whether the position is the start of the
  input. A starred atom is greedy: it tries the longest run first and gives characters
  back one at a time.
\<close>

fun matchHere :: "atom list \<Rightarrow> bool \<Rightarrow> string \<Rightarrow> bool" where
  "matchHere [] atStart s = True"
| "matchHere (AssertStart # as) atStart s = (atStart \<and> matchHere as atStart s)"
| "matchHere (AssertEnd # as) atStart s = (s = [] \<and> matchHere as atStart s)"
| "matchHere (Lit c # as) atStart s =
     (case s of [] \<Rightarrow> False | d # ds \<Rightarrow> d = c \<and> matchHere as False ds)"
| "matchHere (NotSlash # as) atStart s =
     (case s of [] \<Rightarrow> False | d # ds \<Rightarrow> d \<noteq> CHR ''/'' \<and> matchHere as False ds)"
| "matchHere (NotSlashStar # as) atStart s =
     list_ex (\<lambda>k. matchHere as (atStart \<and> k = 0) (drop k s))
       (rev [0 ..< Suc (length (takeWhile (\<lambda>d. d \<noteq> CHR ''/'') s))])"
| "matchHere (DotStar # as) atStart s =
     list_ex (\<lambda>k. matchHere as (atStart \<and> k = 0) (drop k s))
       (rev [0 ..< Suc (length (takeWhile (\<lambda>d. \<not> isLineTerminator d) s))])"

text \<open>\<^verbatim>\<open>new RegExp(src).test(s)\<close>: a match may start at any position of the input.\<close>

definition regExpTest :: "string \<Rightarrow> string \<Rightarrow> bool" where
  "regExpTest src s = list_ex (\<lambda>i. matchHere (compileRegExp src) (i = 0) (drop i s)) [0 ..< Suc (length s)]"

section \<open>ScopeValidator\<close>

record ScopeValidationResult =
  isWithinScope :: bool
  reason :: "string option"
  allowedPaths :: "string list option"
  attemptedPath :: "string option"

definition doubleStar :: string where
  "doubleStar = ''__DOUBLE_STAR__''"

text \<open>The characters of the class \<^verbatim>\<open>[.+^${}()|[\]\\]\<close>.\<close>

definition regexSpecial :: "char \<Rightarrow> bool" where
  "regexSpecial c \<longleftrightarrow> c \<in> set ''.+^${}()|[]'' \<or> c = BACKSLASH"

text \<open>\<^verbatim>\<open>pattern.replace(/[.+^${}()|[\]\\]/g, "\\$&")\<close>: a backslash before each special character.\<close>

definition escapeSpecial :: "string \<Rightarrow> string" where
  "escapeSpecial s = concat (map (\<lambda>c. if regexSpecial c then [BACKSLASH, c] else [c]) s)"

text \<open>\<open>globToRegex\<close> returns the source text of the regular expression it constructs.\<close>

definition globToRegex :: "string \<Rightarrow> string" where
  "globToRegex glob =
     (let pattern = replaceAll ''**'' doubleStar glob;
          pattern = escapeSpecial pattern;
          pattern = replaceChar (CHR ''*'') ''[^/]*'' pattern;
          pattern = replaceChar (CHR ''?'') ''[^/]'' pattern;
          pattern = replaceAll doubleStar ''.*'' pattern
      in ''^'' @ pattern @ ''$'')"

definition matchesPattern :: "string \<Rightarrow> string \<Rightarrow> bool" where
  "matchesPattern filePath scopePattern =
     (let normalized = normalizeSlashes scopePattern in
      if filePath = normalized then True
      else if endsWith normalized ''/'' then startsWith filePath normalized
      else regExpTest (globToRegex normalized) filePath)"

text \<open>The loop over the scope entries, which returns at the first entry that matches.\<close>

fun anyEntryMatches :: "string \<Rightarrow> string list \<Rightarrow> bool" where
  "anyEntryMatches normalizedPath [] = False"
| "anyEntryMatches normalizedPath (scopeEntry # rest) =
     (if matchesPattern normalizedPath scopeEntry then True
      else anyEntryMatches normalizedPath rest)"

definition isPathInScope :: "string \<Rightarrow> string list \<Rightarrow> ScopeValidationResult" where
  "isPathInScope filePath ownedScope =
     (if ownedScope = [] then
        \<lparr> isWithinScope = False,
          reason = Some ''No scope defined for this intent'',
          allowedPaths = None,
          attemptedPath = Some filePath \<rparr>
      else if anyEntryMatches (normalizeSlashes filePath) ownedScope then
        \<lparr> isWithinScope = True,
          reason = None,
          allowedPaths = Some ownedScope,
          attemptedPath = None \<rparr>
      else
        \<lparr> isWithinScope = False,
          reason = Some (''File '' @ [CHR 0x22] @ filePath @ [CHR 0x22]
                         @ '' is outside the intent'' @ [CHR 0x27] @ ''s owned_scope''),
          allowedPaths = Some ownedScope,
          attemptedPath = Some filePath \<rparr>)"

text \<open>\<^verbatim>\<open>outOfScope[0]\<close>: undefined on the empty array.\<close>

definition firstElement :: "'a list \<Rightarrow> 'a option" where
  "firstElement xs = (case xs of [] \<Rightarrow> None | x # _ \<Rightarrow> Some x)"

definition arePathsInScope :: "string list \<Rightarrow> string list \<Rightarrow> ScopeValidationResult" where
  "arePathsInScope filePaths ownedScope =
     (let results = map (\<lambda>p. isPathInScope p ownedScope) filePaths;
          allInScope = list_all isWithinScope results
      in if allInScope then
           \<lparr> isWithinScope = True,
             reason = None,
             allowedPaths = Some ownedScope,
             attemptedPath = None \<rparr>
         else
           (let outOfScope = filter (\<lambda>p. \<not> isWithinScope (isPathInScope p ownedScope)) filePaths
            in \<lparr> isWithinScope = False,
                 reason = Some (showNat (length outOfScope) @ '' file(s) outside scope: ''
                                @ join '', '' outOfScope),
                 allowedPaths = Some ownedScope,
                 attemptedPath = firstElement outOfScope \<rparr>))"


subsection \<open>extractFilesFromDiff\<close>

definition isMarker :: "char \<Rightarrow> bool" where
  "isMarker c \<longleftrightarrow> c = CHR ''+'' \<or> c = CHR ''-''"

definition noLineTerminator :: "string \<Rightarrow> bool" where
  "noLineTerminator s = list_all (\<lambda>c. \<not> isLineTerminator c) s"

text \<open>
  \<^verbatim>\<open>line.match(/^[+-]{3}\s[ab]\/(.+)$/)\<close>: the first capture group of the match, if
  there is one. The dot takes no line terminator and \<^verbatim>\<open>$\<close> is the end of the line.
\<close>

definition matchFileHeader :: "string \<Rightarrow> string option" where
  "matchFileHeader line =
     (case line of
        m1 # m2 # m3 # w # p # sl # rest \<Rightarrow>
          if isMarker m1 \<and> isMarker m2 \<and> isMarker m3 \<and> isWhiteSpace w
             \<and> (p = CHR ''a'' \<or> p = CHR ''b'') \<and> sl = CHR ''/''
             \<and> rest \<noteq> [] \<and> noLineTerminator rest
          then Some rest else None
      | _ \<Rightarrow> None)"

text \<open>
  \<^verbatim>\<open>line.match(/^diff --git a\/(.+) b\/.+$/)\<close>: the group is greedy, so it ends at the
  last \<^verbatim>\<open> b/\<close> that still leaves a character after it.
\<close>

definition matchGitHeader :: "string \<Rightarrow> string option" where
  "matchGitHeader line =
     (if prefix ''diff --git a/'' line then
        (let rest = drop (length ''diff --git a/'') line in
         if noLineTerminator rest then
           (case find (\<lambda>k. prefix '' b/'' (drop k rest) \<and> k + 3 < length rest)
                   (rev [1 ..< length rest]) of
              Some k \<Rightarrow> Some (take k rest)
            | None \<Rightarrow> None)
         else None)
      else None)"

text \<open>\<^verbatim>\<open>files.add(x)\<close> on a Set, which keeps its elements in insertion order.\<close>

definition setAdd :: "'a list \<Rightarrow> 'a \<Rightarrow> 'a list" where
  "setAdd files x = (if x \<in> set files then files else files @ [x])"

fun scanLines :: "string list \<Rightarrow> string list \<Rightarrow> string list" where
  "scanLines files [] = files"
| "scanLines files (line # lines) =
     (let files1 = (case matchFileHeader line of Some p \<Rightarrow> setAdd files p | None \<Rightarrow> files);
          files2 = (case matchGitHeader line of Some p \<Rightarrow> setAdd files1 p | None \<Rightarrow> files1)
      in scanLines files2 lines)"

definition extractFilesFromDiff :: "string \<Rightarrow> string list" where
  "extractFilesFromDiff diff = scanLines [] (splitLines diff)"

section \<open>ApprovalManager\<close>

record ApprovalRequest =
  request_id :: string
  timestamp :: string
  change_summary :: string
  diff :: string
  files_affected :: "string list"
  intent_id :: "string option"
  turn_id :: "string option"

record ApprovalDecision =
  decision_request_id :: string
  decision_timestamp :: string
  approved :: bool
  approver :: string
  approver_notes :: "string option"
  requires_override :: "bool option"

text \<open>
  A line of approval_log.jsonl. \<open>logDecision\<close> spreads the pending request into the
  entry when there is one and only its \<open>request_id\<close> otherwise.
\<close>

datatype RequestFields = FullRequest ApprovalRequest | IdOnly string

record ApprovalLogEntry =
  entry_request :: RequestFields
  entry_decision :: "ApprovalDecision option"
  logged_at :: string

fun entryRequestId :: "RequestFields \<Rightarrow> string" where
  "entryRequestId (FullRequest r) = request_id r"
| "entryRequestId (IdOnly rid) = rid"

text \<open>
  The manager's state: its two indices, the lines of the log file, and the request ids
  whose \<open>submitForApproval\<close> promise is still polling for a decision.
\<close>

record ApprovalManager =
  pendingRequests :: "string \<rightharpoonup> ApprovalRequest"
  approvedRequests :: "string \<rightharpoonup> ApprovalDecision"
  approvalLog :: "ApprovalLogEntry list"
  pollers :: "string list"

text \<open>
  \<open>loadApprovalLog\<close>: the constructor replays the decisions of the log. The log of the
  model holds well-formed entries only.
\<close>

definition loadApprovalLog :: "ApprovalLogEntry list \<Rightarrow> (string \<rightharpoonup> ApprovalDecision)" where
  "loadApprovalLog entries =
     foldl (\<lambda>m e. case entry_decision e of
                     Some d \<Rightarrow> m(entryRequestId (entry_request e) \<mapsto> d)
                   | None \<Rightarrow> m) Map.empty entries"

definition newApprovalManager :: "ApprovalLogEntry list \<Rightarrow> ApprovalManager" where
  "newApprovalManager entries =
     \<lparr> pendingRequests = Map.empty,
       approvedRequests = loadApprovalLog entries,
       approvalLog = entries,
       pollers = [] \<rparr>"

text \<open>
  \<open>createRequest\<close> reads the clock and the random generator: \<open>dateNow\<close> is
  \<^verbatim>\<open>Date.now()\<close> (milliseconds since the epoch), \<open>random36\<close> is
  \<^verbatim>\<open>Math.random().toString(36)\<close> and \<open>isoNow\<close> is \<^verbatim>\<open>new Date().toISOString()\<close>.
\<close>

definition createRequest ::
  "nat \<Rightarrow> string \<Rightarrow> string \<Rightarrow> string \<Rightarrow> string \<Rightarrow> string list \<Rightarrow> string option \<Rightarrow> string option
   \<Rightarrow> ApprovalRequest" where
  "createRequest dateNow random36 isoNow changeSummary diffText filesAffected intentId turnId =
     (let requestId = ''approval-'' @ showNat dateNow @ ''-'' @ substr random36 2 9 in
      \<lparr> request_id = requestId,
        timestamp = isoNow,
        change_summary = changeSummary,
        diff = diffText,
        files_affected = filesAffected,
        intent_id = intentId,
        turn_id = turnId \<rparr>)"

text \<open>
  Appending to the log file may fail; the failure is caught and only warned about.
  \<open>appendOk\<close> says whether \<^verbatim>\<open>fs.appendFileSync\<close> succeeds.
\<close>

definition appendLog :: "bool \<Rightarrow> ApprovalLogEntry \<Rightarrow> ApprovalManager \<Rightarrow> ApprovalManager" where
  "appendLog appendOk entry st =
     (if appendOk then st\<lparr> approvalLog := approvalLog st @ [entry] \<rparr> else st)"

definition logRequest :: "string \<Rightarrow> bool \<Rightarrow> ApprovalRequest \<Rightarrow> ApprovalManager \<Rightarrow> ApprovalManager" where
  "logRequest loggedAt appendOk request st =
     appendLog appendOk
       \<lparr> entry_request = FullRequest request, entry_decision = None, logged_at = loggedAt \<rparr> st"

definition logDecision ::
  "string \<Rightarrow> bool \<Rightarrow> RequestFields \<Rightarrow> ApprovalDecision \<Rightarrow> ApprovalManager \<Rightarrow> ApprovalManager" where
  "logDecision loggedAt appendOk request decision st =
     appendLog appendOk
       \<lparr> entry_request = request, entry_decision = Some decision, logged_at = loggedAt \<rparr> st"

text \<open>
  \<open>submitForApproval\<close> up to the point where it returns its promise: the request is
  stored and logged, and the polling interval is started.
\<close>

definition submitForApproval :: "string \<Rightarrow> bool \<Rightarrow> ApprovalRequest \<Rightarrow> ApprovalManager \<Rightarrow> ApprovalManager" where
  "submitForApproval loggedAt appendOk request st =
     (let st1 = st\<lparr> pendingRequests := (pendingRequests st)(request_id request \<mapsto> request) \<rparr>;
          st2 = logRequest loggedAt appendOk request st1
      in st2\<lparr> pollers := pollers st2 @ [request_id request] \<rparr>)"

text \<open>
  One firing of the polling interval of \<open>submitForApproval\<close> for the request \<open>rid\<close>:
  when a decision is there, the interval is cleared, the request leaves the pending
  index and the promise resolves with the decision.
\<close>

definition pollTick :: "string \<Rightarrow> ApprovalManager \<Rightarrow> ApprovalDecision option \<times> ApprovalManager" where
  "pollTick rid st =
     (case approvedRequests st rid of
        Some decision \<Rightarrow>
          (Some decision,
           st\<lparr> pollers := remove1 rid (pollers st),
               pendingRequests := (pendingRequests st)(rid := None) \<rparr>)
      | None \<Rightarrow> (None, st))"

text \<open>\<open>recordDecision\<close> reads the clock twice: for the decision and for the log entry.\<close>

definition recordDecision ::
  "string \<Rightarrow> string \<Rightarrow> bool \<Rightarrow> string \<Rightarrow> bool \<Rightarrow> string \<Rightarrow> string option \<Rightarrow> bool option
   \<Rightarrow> ApprovalManager \<Rightarrow> ApprovalDecision \<times> ApprovalManager" where
  "recordDecision isoNow loggedAt appendOk requestId approvedFlag approverName approverNotes requiresOverrideFlag st =
     (let decision =
            \<lparr> decision_request_id = requestId,
              decision_timestamp = isoNow,
              approved = approvedFlag,
              approver = approverName,
              approver_notes = approverNotes,
              requires_override = requiresOverrideFlag \<rparr>;
          st1 = st\<lparr> approvedRequests := (approvedRequests st)(requestId \<mapsto> decision) \<rparr>;
          request = (case pendingRequests st1 requestId of
                       Some r \<Rightarrow> FullRequest r
                     | None \<Rightarrow> IdOnly requestId)
      in (decision, logDecision loggedAt appendOk request decision st1))"

definition getPendingRequest :: "ApprovalManager \<Rightarrow> string \<Rightarrow> ApprovalRequest option" where
  "getPendingRequest st requestId = pendingRequests st requestId"

definition getDecision :: "ApprovalManager \<Rightarrow> string \<Rightarrow> ApprovalDecision option" where
  "getDecision st requestId = approvedRequests st requestId"

definition isApproved :: "ApprovalManager \<Rightarrow> string \<Rightarrow> bool" where
  "isApproved st requestId =
     (case approvedRequests st requestId of Some d \<Rightarrow> approved d | None \<Rightarrow> False)"

definition requiresOverride :: "ApprovalManager \<Rightarrow> string \<Rightarrow> bool" where
  "requiresOverride st requestId =
     (case approvedRequests st requestId of
        Some d \<Rightarrow> requires_override d = Some True
      | None \<Rightarrow> False)"

text \<open>The decision records of the log for one request id.\<close>

definition decisionRecords :: "ApprovalManager \<Rightarrow> string \<Rightarrow> ApprovalLogEntry list" where
  "decisionRecords st requestId =
     filter (\<lambda>e. entry_decision e \<noteq> None \<and> entryRequestId (entry_request e) = requestId)
       (approvalLog st)"

section \<open>IntentHookEngine\<close>

record Intent =
  intentId :: string
  name :: string
  status :: string
  owned_scope :: "string list"
  constraints :: "string list"
  acceptance_criteria :: "string list"

record IntentHookEngine =
  intents :: "string \<rightharpoonup> Intent"
  currentSessionIntent :: "Intent option"
  approvalManager :: ApprovalManager

definition validateScope :: "IntentHookEngine \<Rightarrow> string list \<Rightarrow> ScopeValidationResult" where
  "validateScope engine filePaths =
     (case currentSessionIntent engine of
        None \<Rightarrow>
          \<lparr> isWithinScope = False,
            reason = Some ''No active intent - cannot validate scope'',
            allowedPaths = None,
            attemptedPath = firstElement filePaths \<rparr>
      | Some intent \<Rightarrow> arePathsInScope filePaths (owned_scope intent))"

definition clearSessionIntent :: "IntentHookEngine \<Rightarrow> IntentHookEngine" where
  "clearSessionIntent engine = engine\<lparr> currentSessionIntent := None \<rparr>"


section \<open>Notions the statements use\<close>

text \<open>The paths one line of a diff contributes, in the order the loop body adds them.\<close>

definition lineCaptures :: "string \<Rightarrow> string list" where
  "lineCaptures line =
     (case matchFileHeader line of Some p \<Rightarrow> [p] | None \<Rightarrow> [])
     @ (case matchGitHeader line of Some p \<Rightarrow> [p] | None \<Rightarrow> [])"

text \<open>A line that matches one of the two header signatures.\<close>

definition isHeaderLine :: "string \<Rightarrow> bool" where
  "isHeaderLine line \<longleftrightarrow> matchFileHeader line \<noteq> None \<or> matchGitHeader line \<noteq> None"

text \<open>
  The elements of a list, each once, in the order of their first occurrence
  (\<open>remdups\<close> keeps the last occurrence of each element).
\<close>

definition firstSeen :: "'a list \<Rightarrow> 'a list" where
  "firstSeen xs = rev (remdups (rev xs))"

text \<open>
  A run of the manager: a request is submitted to a fresh manager with an empty log, and
  its decision is recorded before the polling interval has fired.
\<close>

definition sampleRequest :: ApprovalRequest where
  "sampleRequest =
     createRequest 1700000000000 ''0.4fzyo82mvyr'' ''2023-11-14T22:13:20.000Z''
       ''Change'' ''diff'' [''test.ts''] None None"

definition submittedState :: ApprovalManager where
  "submittedState =
     submitForApproval ''2023-11-14T22:13:20.001Z'' True sampleRequest (newApprovalManager [])"

definition decidedState :: ApprovalManager where
  "decidedState =
     snd (recordDecision ''2023-11-14T22:13:20.002Z'' ''2023-11-14T22:13:20.003Z'' True
            (request_id sampleRequest) True ''alice'' None None submittedState)"

text \<open>A second run: two decisions are recorded for the same request id.\<close>

definition firstDecisionState :: ApprovalManager where
  "firstDecisionState =
     snd (recordDecision ''2023-11-14T22:13:20.002Z'' ''2023-11-14T22:13:20.003Z'' True
            ''approval-1-abc'' True ''alice'' None None (newApprovalManager []))"

definition secondDecisionState :: ApprovalManager where
  "secondDecisionState =
     snd (recordDecision ''2023-11-14T22:13:21.002Z'' ''2023-11-14T22:13:21.003Z'' True
            ''approval-1-abc'' False ''bob'' None None firstDecisionState)"

subsection \<open>Runs of recordDecision\<close>

text \<open>
  A sequence of \<open>recordDecision\<close> calls: each call with its arguments, its two clock
  readings and whether its write to the log succeeds.
\<close>

record DecisionCall =
  call_isoNow :: string
  call_loggedAt :: string
  call_appendOk :: bool
  call_requestId :: string
  call_approved :: bool
  call_approver :: string
  call_notes :: "string option"
  call_override :: "bool option"

text \<open>The state after one call.\<close>

definition applyCall :: "ApprovalManager \<Rightarrow> DecisionCall \<Rightarrow> ApprovalManager" where
  "applyCall st c =
     snd (recordDecision (call_isoNow c) (call_loggedAt c) (call_appendOk c) (call_requestId c)
            (call_approved c) (call_approver c) (call_notes c) (call_override c) st)"

text \<open>The decision a call builds.\<close>

definition decisionOfCall :: "DecisionCall \<Rightarrow> ApprovalDecision" where
  "decisionOfCall c =
     \<lparr> decision_request_id = call_requestId c, decision_timestamp = call_isoNow c,
       approved = call_approved c, approver = call_approver c,
       approver_notes = call_notes c, requires_override = call_override c \<rparr>"

text \<open>The state after all the calls, in order.\<close>

definition recordAll :: "DecisionCall list \<Rightarrow> ApprovalManager \<Rightarrow> ApprovalManager" where
  "recordAll calls st = foldl applyCall st calls"

subsection \<open>The meaning of a glob\<close>

text \<open>A character that \<open>globToRegex\<close> copies unchanged: no metacharacter, no wildcard.\<close>

definition plainChar :: "char \<Rightarrow> bool" where
  "plainChar c \<longleftrightarrow> \<not> regexSpecial c \<and> c \<noteq> CHR ''*'' \<and> c \<noteq> CHR ''?''"

text \<open>What the three character-wise stages of \<open>globToRegex\<close> together write for one character.\<close>

definition globChunk :: "char \<Rightarrow> string" where
  "globChunk c =
     (if regexSpecial c then [BACKSLASH, c]
      else if c = CHR ''*'' then ''[^/]*''
      else if c = CHR ''?'' then ''[^/]''
      else [c])"

text \<open>The atom one character of a glob stands for.\<close>

definition atomOf :: "char \<Rightarrow> atom" where
  "atomOf c = (if c = CHR ''*'' then NotSlashStar else if c = CHR ''?'' then NotSlash else Lit c)"

text \<open>
  The atoms of a glob after its double stars have become the placeholder: the placeholder
  text stands for \<^verbatim>\<open>.*\<close> and every other character for its own atom.
\<close>

function globAtoms :: "string \<Rightarrow> atom list" where
  "globAtoms [] = []"
| "globAtoms (c # cs) =
     (if prefix doubleStar (c # cs)
      then DotStar # globAtoms (drop (length doubleStar) (c # cs))
      else atomOf c # globAtoms cs)"
  by pat_completeness auto
termination
  by (relation "measure length") (auto simp: doubleStar_def)

text \<open>The pattern text between the anchors, from the glob with the placeholder in it.\<close>

definition bodyOf :: "string \<Rightarrow> string" where
  "bodyOf s = replaceAll doubleStar ''.*'' (concat (map globChunk s))"

text \<open>An atom that is not an anchor.\<close>

definition bodyAtom :: "atom \<Rightarrow> bool" where
  "bodyAtom a \<longleftrightarrow> a \<noteq> AssertStart \<and> a \<noteq> AssertEnd"

text \<open>The strings one atom can take.\<close>

fun atomTakes :: "atom \<Rightarrow> string \<Rightarrow> bool" where
  "atomTakes (Lit c) u = (u = [c])"
| "atomTakes NotSlash u = (length u = 1 \<and> list_all (\<lambda>d. d \<noteq> CHR ''/'') u)"
| "atomTakes NotSlashStar u = list_all (\<lambda>d. d \<noteq> CHR ''/'') u"
| "atomTakes DotStar u = list_all (\<lambda>d. \<not> isLineTerminator d) u"
| "atomTakes AssertStart u = (u = [])"
| "atomTakes AssertEnd u = (u = [])"

text \<open>
  The string can be cut into consecutive pieces, one for each atom in order, each piece
  taken by its atom: the atoms match the whole string.
\<close>

fun matchesWhole :: "atom list \<Rightarrow> string \<Rightarrow> bool" where
  "matchesWhole [] s = (s = [])"
| "matchesWhole (a # as) s =
     list_ex (\<lambda>k. atomTakes a (take k s) \<and> matchesWhole as (drop k s)) [0 ..< Suc (length s)]"

section \<open>Facts about the string helpers\<close>


lemma digitChar_mem: "d < 10 \<Longrightarrow> digitChar d \<in> set ''0123456789''"
  unfolding digitChar_def by (rule nth_mem) simp

lemma digitChar_inj: "a < 10 \<Longrightarrow> b < 10 \<Longrightarrow> digitChar a = digitChar b \<Longrightarrow> a = b"
  unfolding digitChar_def
  by (rule iffD1 [OF nth_eq_iff_index_eq]) simp_all

lemma showNat_digits: "set (showNat n) \<subseteq> set ''0123456789''"
proof (induction n rule: showNat.induct)
  case (1 n)
  show ?case
  proof (cases "n < 10")
    case True
    then show ?thesis
      using digitChar_mem [of n] by (subst showNat.simps) simp
  next
    case False
    have "n mod 10 < 10" by simp
    then have "digitChar (n mod 10) \<in> set ''0123456789''" by (rule digitChar_mem)
    with False "1.IH" show ?thesis
      by (subst showNat.simps) simp
  qed
qed

lemma showNat_nonempty: "showNat n \<noteq> []"
  by (subst showNat.simps) simp

lemma showNat_inj: "showNat n = showNat m \<Longrightarrow> n = m"
proof (induction n arbitrary: m rule: showNat.induct)
  case (1 n)
  show ?case
  proof (cases "n < 10")
    case n: True
    show ?thesis
    proof (cases "m < 10")
      case True
      with n "1.prems" show ?thesis
        by (simp add: showNat.simps [of n] showNat.simps [of m] digitChar_inj)
    next
      case False
      with n "1.prems" showNat_nonempty [of "m div 10"] show ?thesis
        by (simp add: showNat.simps [of n] showNat.simps [of m])
    qed
  next
    case n: False
    show ?thesis
    proof (cases "m < 10")
      case True
      with n "1.prems" showNat_nonempty [of "n div 10"] show ?thesis
        by (simp add: showNat.simps [of n] showNat.simps [of m])
    next
      case False
      with n "1.prems" have eq: "showNat (n div 10) = showNat (m div 10)"
        and d: "digitChar (n mod 10) = digitChar (m mod 10)"
        by (simp_all add: showNat.simps [of n] showNat.simps [of m])
      from "1.IH" [OF n eq] have "n div 10 = m div 10" .
      moreover from d have "n mod 10 = m mod 10"
        by (rule digitChar_inj [rotated 2]) simp_all
      ultimately show ?thesis
        by (metis div_mult_mod_eq)
    qed
  qed
qed


lemma showNat_hd_digit: "hd (showNat n) \<in> set ''0123456789''"
  using showNat_digits [of n] showNat_nonempty [of n] hd_in_set [of "showNat n"] by blast

section \<open>Scope validation\<close>

lemma anyEntryMatches_find:
  "anyEntryMatches p ownedScope \<longleftrightarrow> find (matchesPattern p) ownedScope \<noteq> None"
  by (induction ownedScope) simp_all

lemma isPathInScope_within:
  "isWithinScope (isPathInScope filePath ownedScope) \<longleftrightarrow>
     ownedScope \<noteq> [] \<and> anyEntryMatches (normalizeSlashes filePath) ownedScope"
  by (simp add: isPathInScope_def)

lemma arePathsInScope_within:
  "isWithinScope (arePathsInScope filePaths ownedScope) =
     list_all (\<lambda>p. isWithinScope (isPathInScope p ownedScope)) filePaths"
  by (simp add: arePathsInScope_def Let_def list_all_iff)

lemma arePathsInScope_fail:
  assumes "\<not> isWithinScope (arePathsInScope filePaths ownedScope)"
  shows "arePathsInScope filePaths ownedScope =
     (let outOfScope = filter (\<lambda>p. \<not> isWithinScope (isPathInScope p ownedScope)) filePaths
      in \<lparr> isWithinScope = False,
           reason = Some (showNat (length outOfScope) @ '' file(s) outside scope: ''
                          @ join '', '' outOfScope),
           allowedPaths = Some ownedScope,
           attemptedPath = Some (hd outOfScope) \<rparr>)"
proof -
  let ?bad = "filter (\<lambda>p. \<not> isWithinScope (isPathInScope p ownedScope)) filePaths"
  from assms have nall: "\<not> list_all (\<lambda>p. isWithinScope (isPathInScope p ownedScope)) filePaths"
    by (simp add: arePathsInScope_within)
  then have "?bad \<noteq> []"
    by (auto simp: list_all_iff filter_empty_conv)
  then have "firstElement ?bad = Some (hd ?bad)"
    by (cases ?bad) (simp_all add: firstElement_def)
  with nall show ?thesis
    by (simp add: arePathsInScope_def Let_def list_all_iff del: set_filter)
qed

lemma arePathsInScope_example:
  "arePathsInScope [''src/auth/ok.ts'', ''src/db/bad.ts''] [''src/auth/''] =
     \<lparr> isWithinScope = False,
       reason = Some ''1 file(s) outside scope: src/db/bad.ts'',
       allowedPaths = Some [''src/auth/''],
       attemptedPath = Some ''src/db/bad.ts'' \<rparr>"
  by code_simp

lemma includesStr_example:
  "includesStr ''1 file(s) outside scope: src/db/bad.ts'' ''1 file(s) outside scope''"
  by code_simp

text \<open>
  C4: \<open>isPathInScope\<close> on a non-empty scope list is decided by the first entry, in list
  order, that matches the normalised path. One entry matches by three tiers tried in this
  order: equality with the (normalised) entry, then, for an entry that ends with a slash,
  the prefix test alone, and only otherwise the glob. An entry that ends with a slash
  covers every path under it, and an entry always matches the path equal to it.
\<close>

theorem isPathInScope_three_tiers:
  "ownedScope \<noteq> [] \<Longrightarrow>
     (isWithinScope (isPathInScope filePath ownedScope) \<longleftrightarrow>
        find (matchesPattern (normalizeSlashes filePath)) ownedScope \<noteq> None)
     \<and> (matchesPattern path pat \<longleftrightarrow>
          (let n = normalizeSlashes pat in
           if path = n then True
           else if endsWith n ''/'' then startsWith path n
           else regExpTest (globToRegex n) path))
     \<and> (endsWith (normalizeSlashes pat) ''/'' \<longrightarrow>
          matchesPattern path pat = startsWith path (normalizeSlashes pat)
          \<and> matchesPattern (normalizeSlashes pat @ nested) pat)
     \<and> matchesPattern (normalizeSlashes pat) pat
     \<and> isWithinScope (isPathInScope ''src/auth/x/y.ts'' [''src/auth/''])"
proof (intro conjI impI)
  assume "ownedScope \<noteq> []"
  then show "isWithinScope (isPathInScope filePath ownedScope) \<longleftrightarrow>
      find (matchesPattern (normalizeSlashes filePath)) ownedScope \<noteq> None"
    by (simp add: isPathInScope_within anyEntryMatches_find)
next
  show "matchesPattern path pat \<longleftrightarrow>
      (let n = normalizeSlashes pat in
       if path = n then True
       else if endsWith n ''/'' then startsWith path n
       else regExpTest (globToRegex n) path)"
    by (simp add: matchesPattern_def)
next
  assume "endsWith (normalizeSlashes pat) ''/''"
  then show "matchesPattern path pat = startsWith path (normalizeSlashes pat)"
    by (simp add: matchesPattern_def Let_def startsWith_def)
next
  assume "endsWith (normalizeSlashes pat) ''/''"
  then show "matchesPattern (normalizeSlashes pat @ nested) pat"
    by (simp add: matchesPattern_def Let_def startsWith_def)
next
  show "matchesPattern (normalizeSlashes pat) pat"
    by (simp add: matchesPattern_def)
next
  show "isWithinScope (isPathInScope ''src/auth/x/y.ts'' [''src/auth/''])"
    by code_simp
qed

theorem isPathInScope_three_tiers_witness:
  "[''src/auth/'', ''src/*.ts''] \<noteq> []
   \<and> isWithinScope (isPathInScope ''src/auth/strategies/jwt/handler.ts'' [''src/auth/'', ''src/*.ts''])
   \<and> find (matchesPattern ''src/auth/strategies/jwt/handler.ts'') [''src/auth/'', ''src/*.ts'']
       = Some ''src/auth/''
   \<and> endsWith (normalizeSlashes ''src/auth/'') ''/''
   \<and> matchesPattern ''src/auth/strategies/jwt/handler.ts'' ''src/auth/''"
proof -
  have ne: "[''src/auth/'', ''src/*.ts''] \<noteq> []"
    by simp
  have f: "find (matchesPattern ''src/auth/strategies/jwt/handler.ts'') [''src/auth/'', ''src/*.ts'']
       = Some ''src/auth/''"
    by code_simp
  have n: "normalizeSlashes ''src/auth/strategies/jwt/handler.ts'' = ''src/auth/strategies/jwt/handler.ts''"
    by code_simp
  have e: "endsWith (normalizeSlashes ''src/auth/'') ''/''"
    by code_simp
  have s: "startsWith ''src/auth/strategies/jwt/handler.ts'' (normalizeSlashes ''src/auth/'')"
    by code_simp
  from isPathInScope_three_tiers
         [OF ne, of "''src/auth/strategies/jwt/handler.ts''" "''src/auth/strategies/jwt/handler.ts''"
            "''src/auth/''"]
  show ?thesis
    using ne f n e s by simp
qed

text \<open>
  C5: \<open>arePathsInScope\<close> is within scope exactly when every path of the list is within
  scope by \<open>isPathInScope\<close>. Otherwise the reason is the number of offending paths, the
  text \<^verbatim>\<open> file(s) outside scope: \<close> and the offending paths in input order joined by
  a comma and a space, and \<open>attemptedPath\<close> is the first offending path. For the paths
  src/auth/ok.ts and src/db/bad.ts under the scope src/auth/ the reason contains
  \<^verbatim>\<open>1 file(s) outside scope\<close>.
\<close>

theorem arePathsInScope_all_or_nothing:
  "(isWithinScope (arePathsInScope filePaths ownedScope) \<longleftrightarrow>
      (\<forall>p \<in> set filePaths. isWithinScope (isPathInScope p ownedScope)))
   \<and> (\<not> isWithinScope (arePathsInScope filePaths ownedScope) \<longrightarrow>
        (let outOfScope = filter (\<lambda>p. \<not> isWithinScope (isPathInScope p ownedScope)) filePaths in
         outOfScope \<noteq> []
         \<and> reason (arePathsInScope filePaths ownedScope) =
             Some (showNat (length outOfScope) @ '' file(s) outside scope: ''
                   @ join '', '' outOfScope)
         \<and> attemptedPath (arePathsInScope filePaths ownedScope) = Some (hd outOfScope)))
   \<and> (let r = arePathsInScope [''src/auth/ok.ts'', ''src/db/bad.ts''] [''src/auth/''] in
        \<not> isWithinScope r
        \<and> (case reason r of Some t \<Rightarrow> includesStr t ''1 file(s) outside scope'' | None \<Rightarrow> False))"
proof (intro conjI impI)
  show "isWithinScope (arePathsInScope filePaths ownedScope) \<longleftrightarrow>
      (\<forall>p \<in> set filePaths. isWithinScope (isPathInScope p ownedScope))"
    by (simp add: arePathsInScope_within list_all_iff)
next
  assume miss: "\<not> isWithinScope (arePathsInScope filePaths ownedScope)"
  then have "filter (\<lambda>p. \<not> isWithinScope (isPathInScope p ownedScope)) filePaths \<noteq> []"
    by (auto simp: arePathsInScope_within list_all_iff filter_empty_conv)
  then show "let outOfScope = filter (\<lambda>p. \<not> isWithinScope (isPathInScope p ownedScope)) filePaths in
         outOfScope \<noteq> []
         \<and> reason (arePathsInScope filePaths ownedScope) =
             Some (showNat (length outOfScope) @ '' file(s) outside scope: ''
                   @ join '', '' outOfScope)
         \<and> attemptedPath (arePathsInScope filePaths ownedScope) = Some (hd outOfScope)"
    by (simp add: arePathsInScope_fail [OF miss] Let_def)
next
  show "let r = arePathsInScope [''src/auth/ok.ts'', ''src/db/bad.ts''] [''src/auth/''] in
        \<not> isWithinScope r
        \<and> (case reason r of Some t \<Rightarrow> includesStr t ''1 file(s) outside scope'' | None \<Rightarrow> False)"
    by (simp add: arePathsInScope_example includesStr_example)
qed

theorem arePathsInScope_all_or_nothing_witness:
  "\<not> isWithinScope (arePathsInScope [''src/a.ts'', ''lib/b.ts'', ''src/c.ts'', ''doc/d.md''] [''src/''])
   \<and> reason (arePathsInScope [''src/a.ts'', ''lib/b.ts'', ''src/c.ts'', ''doc/d.md''] [''src/''])
       = Some ''2 file(s) outside scope: lib/b.ts, doc/d.md''
   \<and> attemptedPath (arePathsInScope [''src/a.ts'', ''lib/b.ts'', ''src/c.ts'', ''doc/d.md''] [''src/''])
       = Some ''lib/b.ts''"
proof -
  have a: "isWithinScope (isPathInScope ''src/a.ts'' [''src/''])"
    and b: "\<not> isWithinScope (isPathInScope ''lib/b.ts'' [''src/''])"
    and c: "isWithinScope (isPathInScope ''src/c.ts'' [''src/''])"
    and d: "\<not> isWithinScope (isPathInScope ''doc/d.md'' [''src/''])"
    by code_simp+
  have two: "showNat (Suc (Suc 0)) = ''2''"
    by code_simp
  from arePathsInScope_all_or_nothing
         [of "[''src/a.ts'', ''lib/b.ts'', ''src/c.ts'', ''doc/d.md'']" "[''src/'']"]
  show ?thesis
    using a b c d two by (simp add: Let_def)
qed

text \<open>
  C9: on an empty list of paths \<open>arePathsInScope\<close> is within scope for every scope list,
  the empty one included, while \<open>isPathInScope\<close> with an empty scope list is never within
  scope.
\<close>

theorem arePathsInScope_empty_paths:
  "isWithinScope (arePathsInScope [] ownedScope)
   \<and> isWithinScope (arePathsInScope [] [])
   \<and> \<not> isWithinScope (isPathInScope filePath [])"
  by (simp add: arePathsInScope_def isPathInScope_def)


lemma arePathsInScope_reason:
  "reason (arePathsInScope filePaths ownedScope) = None
   \<or> (\<exists>n rest. reason (arePathsInScope filePaths ownedScope) = Some (showNat n @ rest))"
  by (auto simp: arePathsInScope_def Let_def)

lemma showNat_not_no_intent:
  "showNat n @ rest \<noteq> ''No active intent - cannot validate scope''"
proof
  assume eq: "showNat n @ rest = ''No active intent - cannot validate scope''"
  have "hd (showNat n @ rest) = hd (showNat n)"
    using showNat_nonempty [of n] by simp
  with eq have "hd (showNat n) = CHR ''N''"
    by simp
  with showNat_hd_digit [of n] show False
    by simp
qed

text \<open>
  C7: with no active intent \<open>validateScope\<close> returns a result, for every list of paths:
  not within scope, with the reason \<^verbatim>\<open>No active intent - cannot validate scope\<close>. No
  result of \<open>validateScope\<close> under an active intent carries this reason: there the reason
  is absent or starts with the number of offending paths.
\<close>

theorem validateScope_no_active_intent:
  "validateScope (engine\<lparr> currentSessionIntent := None \<rparr>) filePaths =
     \<lparr> isWithinScope = False,
       reason = Some ''No active intent - cannot validate scope'',
       allowedPaths = None,
       attemptedPath = firstElement filePaths \<rparr>
   \<and> validateScope (clearSessionIntent engine) filePaths =
       validateScope (engine\<lparr> currentSessionIntent := None \<rparr>) filePaths
   \<and> includesStr ''No active intent - cannot validate scope'' ''No active intent''
   \<and> reason (validateScope (other\<lparr> currentSessionIntent := Some intent \<rparr>) otherPaths)
       \<noteq> reason (validateScope (engine\<lparr> currentSessionIntent := None \<rparr>) filePaths)"
proof (intro conjI)
  show "validateScope (engine\<lparr> currentSessionIntent := None \<rparr>) filePaths =
     \<lparr> isWithinScope = False,
       reason = Some ''No active intent - cannot validate scope'',
       allowedPaths = None,
       attemptedPath = firstElement filePaths \<rparr>"
    by (simp add: validateScope_def)
  show "validateScope (clearSessionIntent engine) filePaths =
       validateScope (engine\<lparr> currentSessionIntent := None \<rparr>) filePaths"
    by (simp add: clearSessionIntent_def)
  show "includesStr ''No active intent - cannot validate scope'' ''No active intent''"
    by code_simp
  show "reason (validateScope (other\<lparr> currentSessionIntent := Some intent \<rparr>) otherPaths)
       \<noteq> reason (validateScope (engine\<lparr> currentSessionIntent := None \<rparr>) filePaths)"
    using arePathsInScope_reason [of otherPaths "owned_scope intent"] showNat_not_no_intent
    by (auto simp: validateScope_def)
qed

section \<open>Paths of a diff\<close>

lemma remdups_snoc: "remdups (ys @ [x]) = remdups (filter (\<lambda>y. y \<noteq> x) ys) @ [x]"
  by (induction ys) auto

lemma firstSeen_Nil: "firstSeen [] = []"
  by (simp add: firstSeen_def)

lemma firstSeen_Cons: "firstSeen (x # xs) = x # firstSeen (filter (\<lambda>y. y \<noteq> x) xs)"
  by (simp add: firstSeen_def remdups_snoc rev_filter)

lemma firstSeen_snoc: "firstSeen (xs @ [x]) = setAdd (firstSeen xs) x"
  by (simp add: firstSeen_def setAdd_def)

lemma foldl_setAdd_firstSeen: "foldl setAdd [] xs = firstSeen xs"
  by (induction xs rule: rev_induct) (simp_all add: firstSeen_Nil firstSeen_snoc)

lemma scanLines_foldl:
  "scanLines files lines = foldl setAdd files (concat (map lineCaptures lines))"
  by (induction lines arbitrary: files)
     (simp_all add: lineCaptures_def Let_def split: option.splits)

lemma scanLines_filter:
  "scanLines files (filter isHeaderLine lines) = scanLines files lines"
  by (induction lines arbitrary: files)
     (auto simp: isHeaderLine_def Let_def split: option.splits)

lemma extract_firstSeen:
  "extractFilesFromDiff d = firstSeen (concat (map lineCaptures (splitLines d)))"
  by (simp add: extractFilesFromDiff_def scanLines_foldl foldl_setAdd_firstSeen)

lemma splitLines_noLF: "LF \<notin> set s \<Longrightarrow> splitLines s = [s]"
  by (induction s) (auto simp: Let_def)

lemma noLineTerminator_noLF: "noLineTerminator s \<Longrightarrow> LF \<notin> set s"
  by (auto simp: noLineTerminator_def isLineTerminator_def list_all_iff)

lemma matchFileHeader_general:
  "isMarker m1 \<Longrightarrow> isMarker m2 \<Longrightarrow> isMarker m3 \<Longrightarrow> isWhiteSpace w \<Longrightarrow>
   ab = CHR ''a'' \<or> ab = CHR ''b'' \<Longrightarrow>
   matchFileHeader (m1 # m2 # m3 # w # ab # CHR ''/'' # p) =
     (if p \<noteq> [] \<and> noLineTerminator p then Some p else None)"
  by (auto simp: matchFileHeader_def)

lemma matchGitHeader_marker: "isMarker m \<Longrightarrow> matchGitHeader (m # rest) = None"
  by (auto simp: matchGitHeader_def isMarker_def)

lemma extractFilesFromDiff_same_file_twice:
  "extractFilesFromDiff (''--- a/src/f.ts'' @ [LF] @ ''+++ b/src/f.ts'') = [''src/f.ts'']"
  by code_simp

text \<open>
  C8: \<open>extractFilesFromDiff\<close> is a total function with no failing branch. Its result
  has no duplicates and is the paths captured from the lines of the diff, each once, in
  the order of their first occurrence; the lines that match neither signature can be
  left out without changing it, and a diff with no matching line gives the empty list.
  A diff whose two headers name the same file gives that file once.
\<close>

theorem extractFilesFromDiff_first_seen:
  "distinct (extractFilesFromDiff d)
   \<and> extractFilesFromDiff d = firstSeen (concat (map lineCaptures (splitLines d)))
   \<and> set (extractFilesFromDiff d) = set (concat (map lineCaptures (splitLines d)))
   \<and> extractFilesFromDiff d = scanLines [] (filter isHeaderLine (splitLines d))
   \<and> (filter isHeaderLine (splitLines d) = [] \<longrightarrow> extractFilesFromDiff d = [])
   \<and> extractFilesFromDiff (''--- a/src/f.ts'' @ [LF] @ ''+++ b/src/f.ts'') = [''src/f.ts'']"
proof (intro conjI impI)
  show "distinct (extractFilesFromDiff d)"
    by (simp add: extract_firstSeen firstSeen_def)
  show "extractFilesFromDiff d = firstSeen (concat (map lineCaptures (splitLines d)))"
    by (rule extract_firstSeen)
  show "set (extractFilesFromDiff d) = set (concat (map lineCaptures (splitLines d)))"
    by (simp add: extract_firstSeen firstSeen_def)
  show filtered: "extractFilesFromDiff d = scanLines [] (filter isHeaderLine (splitLines d))"
    by (simp add: extractFilesFromDiff_def scanLines_filter)
  show "extractFilesFromDiff d = []" if "filter isHeaderLine (splitLines d) = []"
    using that filtered by simp
  show "extractFilesFromDiff (''--- a/src/f.ts'' @ [LF] @ ''+++ b/src/f.ts'') = [''src/f.ts'']"
    by (rule extractFilesFromDiff_same_file_twice)
qed

theorem extractFilesFromDiff_first_seen_witness:
  "filter isHeaderLine (splitLines (''index 123..456 100644'' @ [LF] @ ''+ added line'')) = []
   \<and> extractFilesFromDiff (''index 123..456 100644'' @ [LF] @ ''+ added line'') = []
   \<and> distinct (extractFilesFromDiff (''index 123..456 100644'' @ [LF] @ ''+ added line''))"
proof -
  have none: "filter isHeaderLine (splitLines (''index 123..456 100644'' @ [LF] @ ''+ added line'')) = []"
    by code_simp
  from extractFilesFromDiff_first_seen [of "''index 123..456 100644'' @ [LF] @ ''+ added line''"]
  show ?thesis
    using none by blast
qed

text \<open>
  C10: the file-header signature takes either letter after either marker. The lines
  \<^verbatim>\<open>+++ a/p\<close> and \<^verbatim>\<open>--- b/p\<close> are matched exactly as \<^verbatim>\<open>+++ b/p\<close> and \<^verbatim>\<open>--- a/p\<close> are,
  and more generally any three markers out of plus and minus, a white space and one of
  the two letters; for a non-empty \<open>p\<close> without a line terminator each of them
  contributes \<open>p\<close>.
\<close>

theorem matchFileHeader_either_prefix:
  "matchFileHeader (''+++ a/'' @ p) = matchFileHeader (''+++ b/'' @ p)
   \<and> matchFileHeader (''--- b/'' @ p) = matchFileHeader (''--- a/'' @ p)
   \<and> matchFileHeader (''+++ a/'' @ p) = matchFileHeader (''--- b/'' @ p)
   \<and> (isMarker m1 \<and> isMarker m2 \<and> isMarker m3 \<and> isWhiteSpace w
        \<and> (ab = CHR ''a'' \<or> ab = CHR ''b'') \<and> p \<noteq> [] \<and> noLineTerminator p \<longrightarrow>
        matchFileHeader (m1 # m2 # m3 # w # ab # CHR ''/'' # p) = Some p)
   \<and> (p \<noteq> [] \<and> noLineTerminator p \<longrightarrow>
        matchFileHeader (''+++ a/'' @ p) = Some p
        \<and> matchFileHeader (''--- b/'' @ p) = Some p
        \<and> extractFilesFromDiff (''+++ a/'' @ p) = [p]
        \<and> extractFilesFromDiff (''--- b/'' @ p) = [p]
        \<and> extractFilesFromDiff (''+++ b/'' @ p) = [p]
        \<and> extractFilesFromDiff (''--- a/'' @ p) = [p])"
proof -
  have plus: "isMarker (CHR ''+'')" and minus: "isMarker (CHR ''-'')"
    and space: "isWhiteSpace (CHR '' '')"
    by (simp_all add: isMarker_def isWhiteSpace_def)
  have hdr: "matchFileHeader (m # m # m # CHR '' '' # c # CHR ''/'' # p) =
      (if p \<noteq> [] \<and> noLineTerminator p then Some p else None)"
    if "isMarker m" and "c = CHR ''a'' \<or> c = CHR ''b''" for m c
    using that space by (simp add: matchFileHeader_general)
  have one: "extractFilesFromDiff (m # m # m # CHR '' '' # c # CHR ''/'' # p) = [p]"
    if m: "isMarker m" and c: "c = CHR ''a'' \<or> c = CHR ''b''"
      and p: "p \<noteq> []" "noLineTerminator p" for m c
  proof -
    let ?line = "m # m # m # CHR '' '' # c # CHR ''/'' # p"
    have "LF \<notin> set ?line"
      using m c noLineTerminator_noLF [OF p(2)] by (auto simp: isMarker_def LF_def)
    then have "splitLines ?line = [?line]"
      by (rule splitLines_noLF)
    then show ?thesis
      using hdr [OF m c] p matchGitHeader_marker [OF m]
      by (simp add: extractFilesFromDiff_def setAdd_def)
  qed
  show ?thesis
    using hdr [OF plus, of "CHR ''a''"] hdr [OF plus, of "CHR ''b''"]
      hdr [OF minus, of "CHR ''a''"] hdr [OF minus, of "CHR ''b''"]
      one [OF plus, of "CHR ''a''"] one [OF plus, of "CHR ''b''"]
      one [OF minus, of "CHR ''a''"] one [OF minus, of "CHR ''b''"]
    by (simp add: matchFileHeader_general)
qed

theorem matchFileHeader_either_prefix_witness:
  "''src/auth/middleware.ts'' \<noteq> [] \<and> noLineTerminator ''src/auth/middleware.ts''
   \<and> matchFileHeader (''+++ a/'' @ ''src/auth/middleware.ts'') = Some ''src/auth/middleware.ts''
   \<and> matchFileHeader (''--- b/'' @ ''src/auth/middleware.ts'') = Some ''src/auth/middleware.ts''
   \<and> extractFilesFromDiff (''+++ a/'' @ ''src/auth/middleware.ts'') = [''src/auth/middleware.ts'']
   \<and> extractFilesFromDiff (''--- b/'' @ ''src/auth/middleware.ts'') = [''src/auth/middleware.ts'']"
proof -
  have p: "''src/auth/middleware.ts'' \<noteq> []" "noLineTerminator ''src/auth/middleware.ts''"
    by code_simp+
  from matchFileHeader_either_prefix
         [where p = "''src/auth/middleware.ts''" and ?m1.0 = "CHR ''+''" and ?m2.0 = "CHR ''+''"
            and ?m3.0 = "CHR ''+''" and w = "CHR '' ''" and ab = "CHR ''a''"]
  show ?thesis
    using p by blast
qed


section \<open>Request ids\<close>

lemma append_sep_eq:
  assumes "a \<notin> set xs" and "a \<notin> set xs'" and eq: "xs @ a # ys = xs' @ a # ys'"
  shows "xs = xs' \<and> ys = ys'"
proof -
  have tw: "takeWhile (\<lambda>c. c \<noteq> a) (zs @ a # ws) = zs" if "a \<notin> set zs" for zs ws
    using that by (induction zs) auto
  have "takeWhile (\<lambda>c. c \<noteq> a) (xs @ a # ys) = xs"
    using assms(1) by (rule tw)
  moreover have "takeWhile (\<lambda>c. c \<noteq> a) (xs' @ a # ys') = xs'"
    using assms(2) by (rule tw)
  ultimately have "xs = xs'"
    using eq by simp
  with eq show ?thesis
    by simp
qed

lemma showNat_no_dash: "CHR ''-'' \<notin> set (showNat n)"
  using showNat_digits [of n] by auto

lemma createRequest_example:
  "request_id (createRequest 1700000000000 ''0.4fzyo82mvyr'' ''2023-11-14T22:13:20.000Z''
       ''Change'' ''diff'' [''test.ts''] None None) = ''approval-1700000000000-4fzyo82mv''"
  by (simp add: createRequest_def substr_def showNat.simps digitChar_def)

text \<open>
  C6, as the code has it: two calls of \<open>createRequest\<close> give the same request id exactly
  when they read the same \<^verbatim>\<open>Date.now()\<close> and their random suffixes, the nine characters
  after the first two of \<^verbatim>\<open>Math.random().toString(36)\<close>, are equal. Whenever the clock
  readings or the suffixes differ, the ids differ.
\<close>

theorem createRequest_same_id_iff:
  "request_id (createRequest now1 r1 iso1 s1 d1 f1 i1 t1)
     = request_id (createRequest now2 r2 iso2 s2 d2 f2 i2 t2)
   \<longleftrightarrow> now1 = now2 \<and> substr r1 2 9 = substr r2 2 9"
proof
  assume "request_id (createRequest now1 r1 iso1 s1 d1 f1 i1 t1)
     = request_id (createRequest now2 r2 iso2 s2 d2 f2 i2 t2)"
  then have "showNat now1 @ CHR ''-'' # substr r1 2 9 = showNat now2 @ CHR ''-'' # substr r2 2 9"
    by (simp add: createRequest_def)
  then have "showNat now1 = showNat now2 \<and> substr r1 2 9 = substr r2 2 9"
    by (rule append_sep_eq [OF showNat_no_dash showNat_no_dash])
  then show "now1 = now2 \<and> substr r1 2 9 = substr r2 2 9"
    by (simp add: showNat_inj)
next
  assume "now1 = now2 \<and> substr r1 2 9 = substr r2 2 9"
  then show "request_id (createRequest now1 r1 iso1 s1 d1 f1 i1 t1)
     = request_id (createRequest now2 r2 iso2 s2 d2 f2 i2 t2)"
    by (simp add: createRequest_def)
qed

theorem createRequest_same_id_iff_witness:
  "request_id (createRequest 1700000000000 ''0.4fzyo82mvyr'' ''2023-11-14T22:13:20.000Z''
       ''Change 1'' ''diff1'' [''file1.ts''] None None)
   \<noteq> request_id (createRequest 1700000000001 ''0.4fzyo82mvyr'' ''2023-11-14T22:13:20.001Z''
       ''Change 2'' ''diff2'' [''file2.ts''] None None)"
  using createRequest_same_id_iff
          [of 1700000000000 "''0.4fzyo82mvyr''" "''2023-11-14T22:13:20.000Z''"
              "''Change 1''" "''diff1''" "[''file1.ts'']" None None
              1700000000001 "''0.4fzyo82mvyr''" "''2023-11-14T22:13:20.001Z''"
              "''Change 2''" "''diff2''" "[''file2.ts'']" None None]
  by simp

text \<open>
  C6 as stated fails: two calls in the same millisecond whose random strings agree on
  their first eleven characters produce the same request id.
\<close>

theorem createRequest_collision:
  "request_id (createRequest 1700000000000 ''0.4fzyo82mvyr'' ''2023-11-14T22:13:20.000Z''
       ''Change 1'' ''diff1'' [''file1.ts''] None None)
   = request_id (createRequest 1700000000000 ''0.4fzyo82mvab'' ''2023-11-14T22:13:20.000Z''
       ''Change 2'' ''diff2'' [''file2.ts''] None None)"
  by (simp add: createRequest_def substr_def)

section \<open>Decisions\<close>

lemma recordDecision_pending_unchanged:
  "pendingRequests (snd (recordDecision isoNow loggedAt ok rid flag who notes ovr st))
     = pendingRequests st"
  by (simp add: recordDecision_def Let_def logDecision_def appendLog_def)

lemma recordDecision_decided:
  "getDecision (snd (recordDecision isoNow loggedAt ok rid flag who notes ovr st)) rid
     = Some (fst (recordDecision isoNow loggedAt ok rid flag who notes ovr st))
   \<and> isApproved (snd (recordDecision isoNow loggedAt ok rid flag who notes ovr st)) rid = flag"
  by (simp add: recordDecision_def Let_def logDecision_def appendLog_def getDecision_def
        isApproved_def)

lemma pollTick_removes_pending:
  "approvedRequests st rid \<noteq> None \<Longrightarrow> getPendingRequest (snd (pollTick rid st)) rid = None"
  by (auto simp: pollTick_def getPendingRequest_def)

lemma applyCall_decision:
  "getDecision (applyCall st c) rid =
     (if call_requestId c = rid then Some (decisionOfCall c) else getDecision st rid)"
  by (simp add: applyCall_def recordDecision_def Let_def logDecision_def appendLog_def
        getDecision_def decisionOfCall_def)

lemma applyCall_log_length:
  "length (approvalLog (applyCall st c)) =
     length (approvalLog st) + (if call_appendOk c then 1 else 0)"
  by (simp add: applyCall_def recordDecision_def Let_def logDecision_def appendLog_def)

lemma recordAll_snoc: "recordAll (calls @ [c]) st = applyCall (recordAll calls st) c"
  by (simp add: recordAll_def)

lemma recordAll_latest:
  "getDecision (recordAll calls st) rid =
     (case find (\<lambda>c. call_requestId c = rid) (rev calls) of
        Some c \<Rightarrow> Some (decisionOfCall c)
      | None \<Rightarrow> getDecision st rid)"
proof (induction calls rule: rev_induct)
  case Nil
  show ?case by (simp add: recordAll_def)
next
  case (snoc c calls)
  then show ?case
    by (simp add: recordAll_snoc applyCall_decision)
qed

lemma recordAll_log_length:
  "length (approvalLog (recordAll calls st)) =
     length (approvalLog st) + length (filter call_appendOk calls)"
  by (induction calls rule: rev_induct)
     (simp_all add: recordAll_def applyCall_log_length)

lemma recordDecision_after_submit:
  "getPendingRequest
     (snd (recordDecision isoNow loggedAt ok (request_id request) flag who notes ovr
             (submitForApproval loggedAt0 ok0 request st)))
     (request_id request) = Some request"
  by (simp add: recordDecision_pending_unchanged getPendingRequest_def submitForApproval_def
        Let_def logRequest_def appendLog_def)

text \<open>
  C1 at a concrete run: a request is submitted and its decision is recorded before the
  polling interval of \<open>submitForApproval\<close> has fired. The decision is in the decided
  index and the request is approved, but the request is still in the pending index; it
  leaves the index only at the next firing of the interval.
\<close>

theorem recordDecision_leaves_request_pending:
  "getDecision decidedState (request_id sampleRequest) =
     Some \<lparr> decision_request_id = request_id sampleRequest,
            decision_timestamp = ''2023-11-14T22:13:20.002Z'', approved = True,
            approver = ''alice'', approver_notes = None, requires_override = None \<rparr>
   \<and> isApproved decidedState (request_id sampleRequest)
   \<and> getPendingRequest submittedState (request_id sampleRequest) = Some sampleRequest
   \<and> getPendingRequest decidedState (request_id sampleRequest) = Some sampleRequest
   \<and> pollers decidedState = [request_id sampleRequest]
   \<and> getPendingRequest (snd (pollTick (request_id sampleRequest) decidedState))
        (request_id sampleRequest) = None"
  by (simp add: decidedState_def submittedState_def submitForApproval_def recordDecision_def
        Let_def logDecision_def logRequest_def appendLog_def getDecision_def isApproved_def
        getPendingRequest_def pollTick_def newApprovalManager_def loadApprovalLog_def)

text \<open>
  C3, as the code has it: \<open>recordDecision\<close> always builds a decision from its arguments
  and stores it in the decided index under the request id, in place of any decision
  recorded for that id before; the decisions of the other ids stay as they are; and when
  the write to the log succeeds, one more decision record is appended to the log. So
  after any sequence of calls the decided index holds, for each id, the decision of the
  latest call for that id, and the log has grown by one record for each call whose write
  succeeded.
\<close>

theorem recordDecision_replaces:
  "fst (recordDecision isoNow loggedAt ok rid flag who notes ovr st) =
     \<lparr> decision_request_id = rid, decision_timestamp = isoNow, approved = flag, approver = who,
       approver_notes = notes, requires_override = ovr \<rparr>
   \<and> getDecision (snd (recordDecision isoNow loggedAt ok rid flag who notes ovr st)) rid
       = Some (fst (recordDecision isoNow loggedAt ok rid flag who notes ovr st))
   \<and> (other \<noteq> rid \<longrightarrow>
        getDecision (snd (recordDecision isoNow loggedAt ok rid flag who notes ovr st)) other
          = getDecision st other)
   \<and> approvalLog (snd (recordDecision isoNow loggedAt ok rid flag who notes ovr st)) =
       (if ok then
          approvalLog st @
            [\<lparr> entry_request =
                 (case pendingRequests st rid of Some r \<Rightarrow> FullRequest r | None \<Rightarrow> IdOnly rid),
               entry_decision = Some (fst (recordDecision isoNow loggedAt ok rid flag who notes ovr st)),
               logged_at = loggedAt \<rparr>]
        else approvalLog st)
   \<and> getDecision (recordAll calls st) rid =
       (case find (\<lambda>c. call_requestId c = rid) (rev calls) of
          Some c \<Rightarrow> Some (decisionOfCall c)
        | None \<Rightarrow> getDecision st rid)
   \<and> length (approvalLog (recordAll calls st)) =
       length (approvalLog st) + length (filter call_appendOk calls)"
proof (intro conjI)
  show "getDecision (recordAll calls st) rid =
       (case find (\<lambda>c. call_requestId c = rid) (rev calls) of
          Some c \<Rightarrow> Some (decisionOfCall c)
        | None \<Rightarrow> getDecision st rid)"
    by (rule recordAll_latest)
  show "length (approvalLog (recordAll calls st)) =
       length (approvalLog st) + length (filter call_appendOk calls)"
    by (rule recordAll_log_length)
qed (simp_all add: recordDecision_def Let_def logDecision_def appendLog_def getDecision_def)

theorem recordDecision_replaces_witness:
  "''approval-2-xyz'' \<noteq> ''approval-1-abc''
   \<and> getDecision secondDecisionState ''approval-2-xyz''
       = getDecision firstDecisionState ''approval-2-xyz''
   \<and> getDecision secondDecisionState ''approval-2-xyz'' = None"
proof -
  have ne: "''approval-2-xyz'' \<noteq> ''approval-1-abc''"
    by simp
  have none: "getDecision firstDecisionState ''approval-2-xyz'' = None"
    by (simp add: firstDecisionState_def recordDecision_def Let_def logDecision_def appendLog_def
          getDecision_def newApprovalManager_def loadApprovalLog_def)
  from recordDecision_replaces
         [of "''2023-11-14T22:13:21.002Z''" "''2023-11-14T22:13:21.003Z''" True "''approval-1-abc''"
            False "''bob''" None None firstDecisionState "''approval-2-xyz''" "[]"]
  show ?thesis
    using ne none by (simp add: secondDecisionState_def)
qed

text \<open>
  C3 as stated fails: after an approval by alice, a second \<open>recordDecision\<close> for the same
  id, a rejection by bob, replaces the recorded decision, and the log then holds two
  decision records for the id.
\<close>

theorem recordDecision_twice_replaces:
  "getDecision firstDecisionState ''approval-1-abc'' =
     Some \<lparr> decision_request_id = ''approval-1-abc'',
            decision_timestamp = ''2023-11-14T22:13:20.002Z'', approved = True,
            approver = ''alice'', approver_notes = None, requires_override = None \<rparr>
   \<and> getDecision secondDecisionState ''approval-1-abc'' =
     Some \<lparr> decision_request_id = ''approval-1-abc'',
            decision_timestamp = ''2023-11-14T22:13:21.002Z'', approved = False,
            approver = ''bob'', approver_notes = None, requires_override = None \<rparr>
   \<and> isApproved firstDecisionState ''approval-1-abc''
   \<and> \<not> isApproved secondDecisionState ''approval-1-abc''
   \<and> length (decisionRecords firstDecisionState ''approval-1-abc'') = 1
   \<and> length (decisionRecords secondDecisionState ''approval-1-abc'') = 2"
  by (simp add: secondDecisionState_def firstDecisionState_def recordDecision_def Let_def
        logDecision_def appendLog_def getDecision_def isApproved_def decisionRecords_def
        newApprovalManager_def loadApprovalLog_def)

section \<open>Globs\<close>

lemma regExpTest_anchored:
  "compileRegExp src = AssertStart # as \<Longrightarrow> regExpTest src s = matchHere as True s"
  by (auto simp: regExpTest_def list_ex_iff)

lemma length_takeWhile_all:
  "length xs \<le> length (takeWhile P xs) \<longleftrightarrow> (\<forall>x \<in> set xs. P x)"
  by (induction xs) auto

lemma star_to_end:
  "list_ex (\<lambda>k. matchHere [AssertEnd] (b \<and> k = 0) (drop k s))
      (rev [0 ..< Suc (length (takeWhile P s))]) \<longleftrightarrow> (\<forall>x \<in> set s. P x)"
proof -
  have "list_ex (\<lambda>k. matchHere [AssertEnd] (b \<and> k = 0) (drop k s))
      (rev [0 ..< Suc (length (takeWhile P s))]) \<longleftrightarrow> (\<exists>k \<le> length (takeWhile P s). length s \<le> k)"
    by (auto simp: list_ex_iff less_Suc_eq_le)
  also have "\<dots> \<longleftrightarrow> length s \<le> length (takeWhile P s)"
    by auto
  finally show ?thesis
    by (simp add: length_takeWhile_all)
qed

lemma matchHere_DotStar_end:
  "matchHere [DotStar, AssertEnd] b s \<longleftrightarrow> (\<forall>x \<in> set s. \<not> isLineTerminator x)"
  by (subst matchHere.simps) (rule star_to_end)

lemma matchHere_NotSlashStar_end:
  "matchHere [NotSlashStar, AssertEnd] b s \<longleftrightarrow> (\<forall>x \<in> set s. x \<noteq> CHR ''/'')"
  by (subst matchHere.simps) (rule star_to_end)

lemma compile_double_star: "compileRegExp (globToRegex ''**'') = [AssertStart, DotStar, AssertEnd]"
  by code_simp

lemma compile_star: "compileRegExp (globToRegex ''*'') = [AssertStart, NotSlashStar, AssertEnd]"
  by code_simp

lemma compile_question: "compileRegExp (globToRegex ''?'') = [AssertStart, NotSlash, AssertEnd]"
  by code_simp

text \<open>What the three wildcards match when each is the whole glob.\<close>

lemma glob_double_star: "regExpTest (globToRegex ''**'') s \<longleftrightarrow> noLineTerminator s"
proof -
  have "regExpTest (globToRegex ''**'') s = matchHere [DotStar, AssertEnd] True s"
    by (rule regExpTest_anchored [OF compile_double_star])
  also have "\<dots> \<longleftrightarrow> (\<forall>x \<in> set s. \<not> isLineTerminator x)"
    by (rule matchHere_DotStar_end)
  finally show ?thesis
    by (simp add: noLineTerminator_def list_all_iff)
qed

lemma glob_star: "regExpTest (globToRegex ''*'') s \<longleftrightarrow> CHR ''/'' \<notin> set s"
proof -
  have "regExpTest (globToRegex ''*'') s = matchHere [NotSlashStar, AssertEnd] True s"
    by (rule regExpTest_anchored [OF compile_star])
  also have "\<dots> \<longleftrightarrow> (\<forall>x \<in> set s. x \<noteq> CHR ''/'')"
    by (rule matchHere_NotSlashStar_end)
  finally show ?thesis
    by auto
qed

lemma glob_question:
  "regExpTest (globToRegex ''?'') s \<longleftrightarrow> (\<exists>c. s = [c] \<and> c \<noteq> CHR ''/'')"
  by (auto simp add: regExpTest_anchored [OF compile_question] split: list.splits)

text \<open>The four paths of the specification against their globs.\<close>

lemma glob_examples:
  "matchesPattern ''src/auth/strategies/hooks.ts'' ''src/**/hooks.ts''
   \<and> \<not> matchesPattern ''src/hooks.ts'' ''src/**/hooks.ts''
   \<and> matchesPattern ''src/auth/hook.ts'' ''src/*/hook.ts''
   \<and> \<not> matchesPattern ''src/auth/sub/hook.ts'' ''src/*/hook.ts''"
  by code_simp

subsection \<open>The translation of a glob, in general\<close>

lemma replaceChar_append:
  "replaceChar x r (a @ b) = replaceChar x r a @ replaceChar x r b"
  by (simp add: replaceChar_def)

lemma replaceChar_Cons:
  "replaceChar x r (c # s) = (if c = x then r else [c]) @ replaceChar x r s"
  by (simp add: replaceChar_def)

lemma replaceChar_Nil: "replaceChar x r [] = []"
  by (simp add: replaceChar_def)

lemma special_not_wild: "regexSpecial c \<Longrightarrow> c \<noteq> CHR ''*'' \<and> c \<noteq> CHR ''?'' \<and> c \<noteq> CHR ''_''"
  by (auto simp: regexSpecial_def BACKSLASH_def)

lemma stages_chunks:
  "replaceChar (CHR ''?'') ''[^/]'' (replaceChar (CHR ''*'') ''[^/]*'' (escapeSpecial s))
     = concat (map globChunk s)"
proof (induction s)
  case Nil
  show ?case by (simp add: escapeSpecial_def replaceChar_def)
next
  case (Cons c s)
  have esc: "escapeSpecial (c # s) = (if regexSpecial c then [BACKSLASH, c] else [c]) @ escapeSpecial s"
    by (simp add: escapeSpecial_def)
  show ?case
    using Cons.IH special_not_wild [of c]
    by (auto simp: esc replaceChar_append replaceChar_Cons replaceChar_Nil globChunk_def BACKSLASH_def)
qed

lemma globChunk_plain: "plainChar c \<Longrightarrow> globChunk c = [c]"
  by (simp add: globChunk_def plainChar_def)

lemma globChunk_hd:
  "\<exists>x w. globChunk c = x # w \<and> (plainChar x \<longrightarrow> x = c \<and> w = [])"
  by (auto simp: globChunk_def plainChar_def regexSpecial_def BACKSLASH_def)

lemma prefix_chunks:
  "list_all plainChar p \<Longrightarrow> prefix p (concat (map globChunk s)) \<longleftrightarrow> prefix p s"
proof (induction p arbitrary: s)
  case Nil
  show ?case by simp
next
  case (Cons a p)
  then have a: "plainChar a" and p: "list_all plainChar p"
    by simp_all
  show ?case
  proof (cases s)
    case Nil
    then show ?thesis by simp
  next
    case (Cons c s')
    obtain x w where xw: "globChunk c = x # w" and pl: "plainChar x \<longrightarrow> x = c \<and> w = []"
      using globChunk_hd [of c] by blast
    show ?thesis
    proof (cases "a = c")
      case True
      with a have "globChunk c = [a]"
        by (simp add: globChunk_plain)
      with True Cons Cons.IH [OF p, of s'] show ?thesis
        by simp
    next
      case False
      with a xw pl have "x \<noteq> a"
        by auto
      with False Cons xw show ?thesis
        by simp
    qed
  qed
qed

lemma doubleStar_plain: "list_all plainChar doubleStar"
  by (simp add: doubleStar_def plainChar_def regexSpecial_def BACKSLASH_def)

lemma doubleStar_hd: "x \<noteq> CHR ''_'' \<Longrightarrow> \<not> prefix doubleStar (x # w)"
  by (simp add: doubleStar_def)

lemma replaceAll_skip:
  "(\<And>i. i < length u \<Longrightarrow> \<not> prefix pat (drop i (u @ v))) \<Longrightarrow>
   replaceAll pat rep (u @ v) = u @ replaceAll pat rep v"
proof (induction u)
  case Nil
  show ?case by simp
next
  case (Cons a u)
  have "\<not> prefix pat ((a # u) @ v)"
    using Cons.prems [of 0] by simp
  moreover have "replaceAll pat rep (u @ v) = u @ replaceAll pat rep v"
  proof (rule Cons.IH)
    fix i assume "i < length u"
    then show "\<not> prefix pat (drop i (u @ v))"
      using Cons.prems [of "Suc i"] by simp
  qed
  ultimately show ?case
    by simp
qed

lemma chunk_no_match:
  assumes "\<not> prefix doubleStar (c # s)" and "i < length (globChunk c)"
  shows "\<not> prefix doubleStar (drop i (globChunk c @ concat (map globChunk s)))"
proof (cases i)
  case 0
  have "prefix doubleStar (concat (map globChunk (c # s))) \<longleftrightarrow> prefix doubleStar (c # s)"
    by (rule prefix_chunks [OF doubleStar_plain])
  with assms(1) 0 show ?thesis
    by simp
next
  case (Suc j)
  with assms(2) have "\<not> plainChar c"
    by (auto simp: globChunk_plain)
  with Suc assms(2) show ?thesis
    by (auto simp: globChunk_def plainChar_def doubleStar_def less_Suc_eq
          dest: special_not_wild split: if_splits)
qed

lemma bodyOf_Nil: "bodyOf [] = []"
  by (simp add: bodyOf_def)

lemma replaceAll_match:
  "pat \<noteq> [] \<Longrightarrow> replaceAll pat rep (pat @ v) = rep @ replaceAll pat rep v"
  by (cases pat) simp_all

lemma chunks_doubleStar: "concat (map globChunk doubleStar) = doubleStar"
  by (simp add: doubleStar_def globChunk_def regexSpecial_def BACKSLASH_def)

lemma bodyOf_match:
  assumes "prefix doubleStar (c # cs)"
  shows "bodyOf (c # cs) = ''.*'' @ bodyOf (drop (length doubleStar) (c # cs))"
proof -
  from assms obtain rest where rest: "c # cs = doubleStar @ rest"
    by (auto simp: prefix_def)
  have "concat (map globChunk (c # cs)) = doubleStar @ concat (map globChunk rest)"
    by (simp only: rest map_append concat_append chunks_doubleStar)
  then have "bodyOf (c # cs) = ''.*'' @ bodyOf rest"
    by (simp only: bodyOf_def) (rule replaceAll_match, simp add: doubleStar_def)
  moreover have "drop (length doubleStar) (c # cs) = rest"
    by (simp only: rest) simp
  ultimately show ?thesis
    by simp
qed

lemma bodyOf_skip:
  assumes "\<not> prefix doubleStar (c # cs)"
  shows "bodyOf (c # cs) = globChunk c @ bodyOf cs"
proof -
  have "replaceAll doubleStar ''.*'' (globChunk c @ concat (map globChunk cs))
      = globChunk c @ replaceAll doubleStar ''.*'' (concat (map globChunk cs))"
    by (rule replaceAll_skip) (rule chunk_no_match [OF assms])
  then show ?thesis
    by (simp add: bodyOf_def)
qed

lemma globChunk_first:
  "\<exists>x w. globChunk c = x # w \<and> x \<noteq> CHR ''*''"
  by (auto simp: globChunk_def BACKSLASH_def)

lemma body_first:
  "\<exists>x w. bodyOf s @ ''$'' = x # w \<and> x \<noteq> CHR ''*''"
proof (cases s)
  case Nil
  then show ?thesis by (simp add: bodyOf_Nil)
next
  case (Cons c cs)
  show ?thesis
  proof (cases "prefix doubleStar (c # cs)")
    case True
    then show ?thesis
      by (simp add: Cons bodyOf_match)
  next
    case False
    obtain x w where "globChunk c = x # w" and "x \<noteq> CHR ''*''"
      using globChunk_first [of c] by blast
    with False show ?thesis
      by (simp add: Cons bodyOf_skip)
  qed
qed

declare compileRegExp.simps(2) [simp del]

lemma compile_dotStar: "compileRegExp (''.*'' @ rest) = DotStar # compileRegExp rest"
  by (simp add: compileRegExp.simps(2) [of "CHR ''.''"] BACKSLASH_def)

lemma compile_escaped: "compileRegExp (BACKSLASH # d # rest) = Lit d # compileRegExp rest"
  by (simp add: compileRegExp.simps(2) [of BACKSLASH])

lemma compile_notSlashStar:
  "compileRegExp (''[^/]*'' @ rest) = NotSlashStar # compileRegExp rest"
  by (simp add: compileRegExp.simps(2) [of "CHR ''[''"] BACKSLASH_def)

lemma compile_notSlash:
  "x \<noteq> CHR ''*'' \<Longrightarrow> compileRegExp (''[^/]'' @ x # w) = NotSlash # compileRegExp (x # w)"
  by (simp add: compileRegExp.simps(2) [of "CHR ''[''"] BACKSLASH_def)

lemma not_special:
  "\<not> regexSpecial c \<Longrightarrow>
   c \<noteq> BACKSLASH \<and> c \<noteq> CHR ''['' \<and> c \<noteq> CHR ''.'' \<and> c \<noteq> CHR ''^'' \<and> c \<noteq> CHR ''$''"
  by (simp add: regexSpecial_def)

lemma compile_plain:
  "\<not> regexSpecial c \<Longrightarrow> compileRegExp (c # rest) = Lit c # compileRegExp rest"
  using not_special [of c] by (auto simp: compileRegExp.simps(2) [of c])

lemma compile_chunk:
  assumes "rest = x # w" and "x \<noteq> CHR ''*''"
  shows "compileRegExp (globChunk c @ rest) = atomOf c # compileRegExp rest"
proof -
  consider "regexSpecial c" | "c = CHR ''*''" | "c = CHR ''?''"
    | "\<not> regexSpecial c" "c \<noteq> CHR ''*''" "c \<noteq> CHR ''?''"
    by blast
  then show ?thesis
  proof cases
    case 1
    then show ?thesis
      using special_not_wild [of c] by (simp add: globChunk_def atomOf_def compile_escaped)
  next
    case 2
    have "\<not> regexSpecial (CHR ''*'')"
      by (simp add: regexSpecial_def BACKSLASH_def)
    with 2 have "globChunk c = ''[^/]*''" and "atomOf c = NotSlashStar"
      by (simp_all add: globChunk_def atomOf_def)
    then show ?thesis
      by (simp only: compile_notSlashStar)
  next
    case 3
    have "\<not> regexSpecial (CHR ''?'')"
      by (simp add: regexSpecial_def BACKSLASH_def)
    with 3 have "globChunk c = ''[^/]''" and "atomOf c = NotSlash"
      by (simp_all add: globChunk_def atomOf_def)
    then show ?thesis
      by (simp only: assms(1) compile_notSlash [OF assms(2)])
  next
    case 4
    then show ?thesis
      by (simp add: globChunk_def atomOf_def compile_plain)
  qed
qed

lemma compile_body:
  "compileRegExp (bodyOf s @ ''$'') = globAtoms s @ [AssertEnd]"
proof (induction s rule: globAtoms.induct)
  case 1
  show ?case by (simp add: bodyOf_Nil compileRegExp.simps(2) [of "CHR ''$''"] BACKSLASH_def)
next
  case (2 c cs)
  show ?case
  proof (cases "prefix doubleStar (c # cs)")
    case True
    have "compileRegExp (bodyOf (c # cs) @ ''$'')
        = DotStar # compileRegExp (bodyOf (drop (length doubleStar) (c # cs)) @ ''$'')"
      by (simp only: bodyOf_match [OF True] append_assoc compile_dotStar)
    with True "2.IH"(1) show ?thesis
      by simp
  next
    case False
    obtain x w where xw: "bodyOf cs @ ''$'' = x # w" "x \<noteq> CHR ''*''"
      using body_first [of cs] by blast
    have "compileRegExp (bodyOf (c # cs) @ ''$'') = atomOf c # compileRegExp (bodyOf cs @ ''$'')"
      by (simp only: bodyOf_skip [OF False] append_assoc compile_chunk [OF xw])
    with False "2.IH"(2) show ?thesis
      by simp
  qed
qed

text \<open>
  For every glob, the pattern text that \<open>globToRegex\<close> builds compiles to the start
  anchor, one atom for each placeholder and each other character of the glob, and the end
  anchor.
\<close>

theorem globToRegex_atoms:
  "compileRegExp (globToRegex g)
     = AssertStart # globAtoms (replaceAll ''**'' doubleStar g) @ [AssertEnd]"
proof -
  have "globToRegex g = ''^'' @ bodyOf (replaceAll ''**'' doubleStar g) @ ''$''"
    by (simp add: globToRegex_def Let_def stages_chunks bodyOf_def)
  then have "compileRegExp (globToRegex g)
      = AssertStart # compileRegExp (bodyOf (replaceAll ''**'' doubleStar g) @ ''$'')"
    by (simp add: compileRegExp.simps(2) [of "CHR ''^''"] BACKSLASH_def)
  then show ?thesis
    by (simp only: compile_body)
qed

lemma regExpTest_glob:
  "regExpTest (globToRegex g) s
     = matchHere (globAtoms (replaceAll ''**'' doubleStar g) @ [AssertEnd]) True s"
  by (rule regExpTest_anchored [OF globToRegex_atoms])

lemma takeWhile_bound:
  "k \<le> length (takeWhile P s) \<longleftrightarrow> k \<le> length s \<and> (\<forall>x \<in> set (take k s). P x)"
proof (induction s arbitrary: k)
  case Nil
  show ?case by simp
next
  case (Cons a s)
  show ?case
    by (cases k) (auto simp: Cons.IH)
qed

lemma list_ex_upto:
  "list_ex Q [0 ..< Suc n] \<longleftrightarrow> (\<exists>k. k \<le> n \<and> Q k)"
proof
  assume "list_ex Q [0 ..< Suc n]"
  then obtain k where "k \<in> set [0 ..< Suc n]" and "Q k"
    unfolding list_ex_iff by blast
  moreover from this have "k \<le> n"
    by auto
  ultimately show "\<exists>k. k \<le> n \<and> Q k"
    by blast
next
  assume "\<exists>k. k \<le> n \<and> Q k"
  then obtain k where "k \<le> n" and "Q k"
    by blast
  moreover from this have "k \<in> set [0 ..< Suc n]"
    by auto
  ultimately show "list_ex Q [0 ..< Suc n]"
    unfolding list_ex_iff by blast
qed

lemma list_ex_rev_upto:
  "list_ex Q (rev [0 ..< Suc n]) \<longleftrightarrow> (\<exists>k. k \<le> n \<and> Q k)"
  using list_ex_upto [of Q n] by (simp only: list_ex_iff set_rev)

lemma star_split:
  "list_ex (\<lambda>k. M (drop k s)) (rev [0 ..< Suc (length (takeWhile P s))])
     \<longleftrightarrow> list_ex (\<lambda>k. list_all P (take k s) \<and> M (drop k s)) [0 ..< Suc (length s)]"
proof -
  have "list_ex (\<lambda>k. M (drop k s)) (rev [0 ..< Suc (length (takeWhile P s))])
      \<longleftrightarrow> (\<exists>k. k \<le> length (takeWhile P s) \<and> M (drop k s))"
    by (rule list_ex_rev_upto)
  also have "\<dots> \<longleftrightarrow> (\<exists>k. k \<le> length s \<and> list_all P (take k s) \<and> M (drop k s))"
    by (simp add: takeWhile_bound list_all_iff conj_assoc)
  finally show ?thesis
    by (simp only: list_ex_upto)
qed

lemma one_split:
  "list_ex (\<lambda>k. length (take k s) = 1 \<and> Q (take k s) \<and> M (drop k s)) [0 ..< Suc (length s)]
     \<longleftrightarrow> (case s of [] \<Rightarrow> False | d # ds \<Rightarrow> Q [d] \<and> M ds)"
proof (cases s)
  case Nil
  then show ?thesis by simp
next
  case (Cons d ds)
  have "(\<exists>k. k \<le> length s \<and> length (take k s) = 1 \<and> Q (take k s) \<and> M (drop k s))
      \<longleftrightarrow> Q [d] \<and> M ds"
  proof
    assume "\<exists>k. k \<le> length s \<and> length (take k s) = 1 \<and> Q (take k s) \<and> M (drop k s)"
    then obtain k where k: "k \<le> length s" "length (take k s) = 1" "Q (take k s)" "M (drop k s)"
      by blast
    from k(1,2) have "k = 1"
      by simp
    with k Cons show "Q [d] \<and> M ds"
      by simp
  next
    assume "Q [d] \<and> M ds"
    with Cons have "1 \<le> length s \<and> length (take 1 s) = 1 \<and> Q (take 1 s) \<and> M (drop 1 s)"
      by simp
    then show "\<exists>k. k \<le> length s \<and> length (take k s) = 1 \<and> Q (take k s) \<and> M (drop k s)"
      by blast
  qed
  then show ?thesis
    by (simp only: list_ex_upto) (simp add: Cons)
qed

lemma matchHere_matchesWhole:
  "list_all bodyAtom as \<Longrightarrow> matchHere (as @ [AssertEnd]) b s = matchesWhole as s"
proof (induction as arbitrary: b s)
  case Nil
  show ?case by simp
next
  case (Cons a as)
  then have IH: "\<And>b s. matchHere (as @ [AssertEnd]) b s = matchesWhole as s"
    and a: "bodyAtom a"
    by simp_all
  show ?case
  proof (cases a)
    case AssertStart
    with a show ?thesis by (simp add: bodyAtom_def)
  next
    case AssertEnd
    with a show ?thesis by (simp add: bodyAtom_def)
  next
    case (Lit c)
    have one: "length u = 1" if "u = [c]" for u :: string
      using that by simp
    have "(\<lambda>k. take k s = [c] \<and> matchesWhole as (drop k s))
        = (\<lambda>k. length (take k s) = 1 \<and> take k s = [c] \<and> matchesWhole as (drop k s))"
      by (rule ext) (use one in blast)
    then have "matchesWhole (Lit c # as) s
        = list_ex (\<lambda>k. length (take k s) = 1 \<and> take k s = [c] \<and> matchesWhole as (drop k s))
            [0 ..< Suc (length s)]"
      by (simp only: matchesWhole.simps atomTakes.simps)
    also have "\<dots> = (case s of [] \<Rightarrow> False | d # ds \<Rightarrow> [d] = [c] \<and> matchesWhole as ds)"
      by (rule one_split)
    finally show ?thesis
      by (simp add: Lit IH split: list.splits)
  next
    case NotSlash
    have "matchesWhole (NotSlash # as) s
        = (case s of [] \<Rightarrow> False
           | d # ds \<Rightarrow> list_all (\<lambda>d. d \<noteq> CHR ''/'') [d] \<and> matchesWhole as ds)"
      by (simp only: matchesWhole.simps atomTakes.simps conj_assoc one_split)
    then show ?thesis
      by (simp add: NotSlash IH split: list.splits)
  next
    case NotSlashStar
    show ?thesis
      by (simp only: NotSlashStar append_Cons matchHere.simps IH matchesWhole.simps
            atomTakes.simps star_split)
  next
    case DotStar
    show ?thesis
      by (simp only: DotStar append_Cons matchHere.simps IH matchesWhole.simps
            atomTakes.simps star_split)
  qed
qed

lemma atomOf_body: "bodyAtom (atomOf c)"
  by (simp add: atomOf_def bodyAtom_def)

lemma dotStar_body: "bodyAtom DotStar"
  by (simp add: bodyAtom_def)

lemma globAtoms_body: "list_all bodyAtom (globAtoms s)"
  by (induction s rule: globAtoms.induct) (simp_all add: atomOf_body dotStar_body)

text \<open>
  For every glob and every path, the generated expression accepts the path exactly when
  the whole path can be cut into one piece for each atom: any run without a line
  terminator for a double star (separators included), any run without a separator for a
  single star, one character other than the separator for a question mark, and the
  character itself for anything else.
\<close>

theorem glob_semantics:
  "regExpTest (globToRegex g) s = matchesWhole (globAtoms (replaceAll ''**'' doubleStar g)) s"
  by (simp only: regExpTest_glob matchHere_matchesWhole [OF globAtoms_body])

text \<open>
  C2 at a concrete path: the path src/a, line feed, b.ts has no separator after
  \<^verbatim>\<open>src/\<close>. The glob \<^verbatim>\<open>src/*\<close> matches it, the glob \<^verbatim>\<open>src/**\<close> does not, because the
  dot of the generated \<^verbatim>\<open>.*\<close> takes no line terminator: the double star does not stand
  for every sequence of characters.
\<close>

theorem glob_double_star_line_terminator:
  "\<not> matchesPattern (''src/a'' @ [LF] @ ''b.ts'') ''src/**''
   \<and> matchesPattern (''src/a'' @ [LF] @ ''b.ts'') ''src/*''
   \<and> \<not> isWithinScope (isPathInScope (''src/a'' @ [LF] @ ''b.ts'') [''src/**''])"
  by code_simp

end
